theory Spec2Isabelle
  imports Complex_Main "HOL-Library.Log_Nat"
begin

section \<open>GameRoom booking bot: slots, conflict check and pricing of \<open>bot.py\<close>\<close>

text \<open>
  The embedding follows \<open>src/bot.py\<close>. Conventions:

  \<^item> A timezone-aware \<open>datetime\<close> is an \<open>int\<close>: the seconds of its wall clock, counted from
    local midnight of a reference day. Every datetime the bot builds comes from
    \<open>strptime\<close> of a date (or a date and \<open>HH:MM\<close>), \<open>replace(hour, minute, second=0,
    microsecond=0)\<close> and \<open>timedelta(minutes=...)\<close>, so microseconds are always zero.
    Arithmetic on a pytz-localized datetime keeps its \<open>tzinfo\<close>, so within one handler all
    datetimes share one UTC offset, the parameter \<open>tzoff\<close> (seconds east of UTC).
    The bounds of Python's \<open>datetime\<close> (years 1 to 9999) and \<open>timedelta\<close> are not modelled:
    the model has no \<open>OverflowError\<close>, and speaks of the datetimes that Python can hold.
  \<^item> A \<open>timedelta\<close> is an \<open>int\<close> of seconds.
  \<^item> A Python \<open>float\<close> is the rational number it denotes. Every float operation is the
    exact operation followed by \<open>double_round\<close>, the IEEE 754 binary64 rounding (53 bit
    significand, nearest, ties to even). Overflow and subnormal numbers are not modelled:
    the amounts of this program lie far inside the normal range.
  \<^item> The table \<open>bookings\<close> is the list of its rows, oldest first.
\<close>

subsection \<open>Constants of the business logic\<close>

definition OPEN_TIME_hour :: int where "OPEN_TIME_hour = 13"
definition CLOSE_TIME_hour :: int where "CLOSE_TIME_hour = 2"
definition SLOT_STEP_MIN :: int where "SLOT_STEP_MIN = 60"
definition BUFFER_MIN :: int where "BUFFER_MIN = 10"
definition DAY_RATE :: int where "DAY_RATE = 400"
definition EVE_RATE :: int where "EVE_RATE = 500"

subsection \<open>Dates and times\<close>

definition timedelta_minutes :: "int \<Rightarrow> int" where
  \<comment> \<open>\<open>timedelta(minutes=m)\<close>\<close>
  "timedelta_minutes m = 60 * m"

definition timedelta_days :: "int \<Rightarrow> int" where
  \<comment> \<open>\<open>timedelta(days=d)\<close>\<close>
  "timedelta_days d = 86400 * d"

definition time_hm :: "int \<Rightarrow> int \<Rightarrow> int" where
  \<comment> \<open>\<open>time(h, m)\<close>: a time of day, in seconds after midnight\<close>
  "time_hm h m = 3600 * h + 60 * m"

definition time_of :: "int \<Rightarrow> int" where
  \<comment> \<open>\<open>dt.time()\<close>: the wall-clock time of day of a datetime\<close>
  "time_of dt = dt mod 86400"

definition replace_hour :: "int \<Rightarrow> int \<Rightarrow> int" where
  \<comment> \<open>\<open>dt.replace(hour=h, minute=0, second=0, microsecond=0)\<close>\<close>
  "replace_hour dt h = (dt div 86400) * 86400 + 3600 * h"

definition to_utc :: "int \<Rightarrow> int \<Rightarrow> int" where
  \<comment> \<open>\<open>to_utc(dt_local)\<close> of an aware datetime, read as \<open>int(....timestamp())\<close>\<close>
  "to_utc tzoff dt_local = dt_local - tzoff"

definition local_dt :: "int \<Rightarrow> int \<Rightarrow> int \<Rightarrow> int" where
  \<comment> \<open>the wall-clock instant \<open>h:m\<close> on day \<open>d\<close>, to write examples\<close>
  "local_dt d h m = timedelta_days d + time_hm h m"

subsection \<open>Python floats\<close>

definition ilog2 :: "rat \<Rightarrow> int" where
  \<comment> \<open>for \<open>x > 0\<close>: the exponent \<open>e\<close> with \<open>2 powi e \<le> x < 2 powi (e + 1)\<close>\<close>
  "ilog2 x =
     (let (p, q) = quotient_of x; k = bitlen p - bitlen q
      in if 2 powi k \<le> x then k else k - 1)"

definition round_half_even :: "rat \<Rightarrow> int" where
  "round_half_even x =
     (let f = \<lfloor>x\<rfloor>; d = x - of_int f
      in if d < 1 / 2 then f
         else if 1 / 2 < d then f + 1
         else if even f then f else f + 1)"

definition double_round :: "rat \<Rightarrow> rat" where
  \<comment> \<open>the nearest binary64 number: a 53 bit integer times the unit in the last place\<close>
  "double_round x =
     (if x = 0 then 0
      else let ulp = 2 powi (ilog2 \<bar>x\<bar> - 52)
           in of_int (round_half_even (x / ulp)) * ulp)"

definition float_of_int :: "int \<Rightarrow> rat" where
  \<comment> \<open>the conversion of an \<open>int\<close> operand of a float operation\<close>
  "float_of_int n = double_round (of_int n)"

definition int_truediv :: "int \<Rightarrow> int \<Rightarrow> rat" where
  \<comment> \<open>\<open>a / b\<close> on ints with \<open>b \<noteq> 0\<close>: the correctly rounded quotient\<close>
  "int_truediv a b = double_round (of_int a / of_int b)"

definition float_add :: "rat \<Rightarrow> rat \<Rightarrow> rat" where
  "float_add a b = double_round (a + b)"

definition float_mul :: "rat \<Rightarrow> rat \<Rightarrow> rat" where
  "float_mul a b = double_round (a * b)"

definition py_round0 :: "rat \<Rightarrow> int" where
  \<comment> \<open>\<open>int(round(x, 0))\<close>: Python rounds the exact value of the float, ties to even\<close>
  "py_round0 x = round_half_even x"

subsection \<open>Slot generator\<close>

function iter_open_slots_loop :: "int \<Rightarrow> int \<Rightarrow> int \<Rightarrow> (int \<times> int) list \<Rightarrow> (int \<times> int) list" where
  "iter_open_slots_loop cur dur close_dt slots =
     (if cur + dur + timedelta_minutes BUFFER_MIN \<le> close_dt
      then iter_open_slots_loop (cur + timedelta_minutes SLOT_STEP_MIN) dur close_dt
             (slots @ [(cur, cur + dur)])
      else slots)"
  by pat_completeness auto
termination
  by (relation "measure (\<lambda>(cur, dur, close_dt, slots). nat (close_dt - cur - dur + 1))")
    (auto simp: timedelta_minutes_def SLOT_STEP_MIN_def BUFFER_MIN_def)

definition iter_open_slots :: "int \<Rightarrow> int \<Rightarrow> (int \<times> int) list" where
  "iter_open_slots date_local duration_min =
     (let start_day = replace_hour date_local OPEN_TIME_hour;
          close_dt = replace_hour (date_local + timedelta_days 1) CLOSE_TIME_hour;
          dur = timedelta_minutes duration_min
      in iter_open_slots_loop start_day dur close_dt [])"

subsection \<open>Pricing\<close>

definition rate_at :: "int \<Rightarrow> int" where
  \<comment> \<open>\<open>DAY_RATE if time(13,0) <= cur.time() < time(18,0) else EVE_RATE\<close>\<close>
  "rate_at cur =
     (if time_hm 13 0 \<le> time_of cur \<and> time_of cur < time_hm 18 0 then DAY_RATE else EVE_RATE)"

function price_loop :: "int \<Rightarrow> int \<Rightarrow> rat \<Rightarrow> rat" where
  "price_loop cur end_local tot =
     (if cur < end_local
      then price_loop (min end_local (cur + timedelta_minutes 1)) end_local
             (float_add tot (int_truediv (rate_at cur) 60))
      else tot)"
  by pat_completeness auto
termination
  by (relation "measure (\<lambda>(cur, end_local, tot). nat (end_local - cur))")
    (auto simp: timedelta_minutes_def)

definition price_for_interval :: "int \<Rightarrow> int \<Rightarrow> string \<Rightarrow> bool \<Rightarrow> int" where
  \<comment> \<open>\<open>total\<close> starts as the int 0; adding a float to it, or 150 to the int, gives the
      same value as starting from the float 0.0\<close>
  "price_for_interval start_local end_local gamepads_mode headsets =
     (let tot = price_loop start_local end_local 0;
          tot = (if gamepads_mode = ''squad''
                   then let minutes = (end_local - start_local) div 60
                        in float_add tot (float_mul (int_truediv 100 60) (float_of_int minutes))
                   else tot);
          tot = (if headsets then float_add tot (float_of_int 150) else tot)
      in py_round0 tot)"

subsection \<open>The table of bookings and the overlap query\<close>

record booking =
  booking_id :: int
  user_id :: int
  username :: string
  name :: "string option"
  phone :: string
  start_ts :: int
  end_ts :: int
  duration_min :: int
  addons :: string
  price_total :: int
  status :: string
  created_ts :: int

definition overlaps :: "booking list \<Rightarrow> int \<Rightarrow> int \<Rightarrow> bool" where
  \<comment> \<open>\<open>SELECT 1 FROM bookings WHERE status IN (...) AND NOT (end_ts <= s OR start_ts >= e)
      LIMIT 1\<close> returns a row\<close>
  "overlaps conn s e =
     list_ex (\<lambda>r. status r \<in> set [''pending'', ''confirmed'', ''blocked'']
                 \<and> \<not> (end_ts r \<le> s \<or> start_ts r \<ge> e)) conn"

definition insert_row :: "booking list \<Rightarrow> booking \<Rightarrow> booking list" where
  \<comment> \<open>\<open>INSERT INTO bookings\<close>: the row gets the next \<open>AUTOINCREMENT\<close> id (no row is ever
      deleted) and comes last\<close>
  "insert_row conn r = conn @ [r\<lparr>booking_id := int (length conn) + 1\<rparr>]"

subsection \<open>The commit of a booking: \<open>enter_phone\<close>\<close>

record BookingDraft =
  draft_date :: "int option"
  draft_duration_min :: int
  draft_start_dt :: "int option"
  draft_gamepads_mode :: string
  draft_headsets :: bool
  draft_name :: "string option"
  draft_phone :: "string option"

datatype conv_state =
  CHOOSING_DATE | CHOOSING_DURATION | CHOOSING_TIME | CHOOSING_ADDONS
  | ENTERING_NAME | ENTERING_PHONE | CONFIRMING | ConversationHandler_END

datatype py_error = TypeError

definition enter_phone_conflict :: "int \<Rightarrow> int \<Rightarrow> int \<Rightarrow> booking list \<Rightarrow> bool" where
  \<comment> \<open>lines 341 to 347 of \<open>enter_phone\<close>: the candidate's end is extended by the buffer,
      both ends go to UTC, and \<open>overlaps\<close> is asked\<close>
  "enter_phone_conflict tzoff start_local dur_min conn =
     (let end_local = start_local + timedelta_minutes (dur_min + BUFFER_MIN);
          start_utc = to_utc tzoff start_local;
          end_utc = to_utc tzoff end_local
      in overlaps conn start_utc end_utc)"

definition addons_string :: "string \<Rightarrow> bool \<Rightarrow> string" where
  \<comment> \<open>\<open>";".join\<close> of \<open>'squad'\<close> (when that is the mode) and \<open>'headsets'\<close> (when chosen)\<close>
  "addons_string gamepads_mode headsets =
     (if gamepads_mode = ''squad''
      then (if headsets then ''squad;headsets'' else ''squad'')
      else (if headsets then ''headsets'' else []))"

definition enter_phone ::
  "int \<Rightarrow> int \<Rightarrow> int \<Rightarrow> string \<Rightarrow> string \<Rightarrow> BookingDraft \<Rightarrow> booking list
     \<Rightarrow> py_error + (conv_state \<times> booking list)" where
  \<comment> \<open>\<open>tzoff\<close>: the UTC offset of the draft's datetimes; \<open>now\<close>: \<open>int(utcnow().timestamp())\<close>;
      \<open>uid\<close>, \<open>uname\<close>: the user's id and \<open>username or ""\<close>; \<open>phone_in\<close>: the contact's
      number or the stripped text. A draft without \<open>start_dt\<close> makes
      \<open>None + timedelta\<close> raise. The messages sent are not part of the result.\<close>
  "enter_phone tzoff now uid uname phone_in draft conn =
     (case draft_start_dt draft of
        None \<Rightarrow> Inl TypeError
      | Some start_local \<Rightarrow>
          if enter_phone_conflict tzoff start_local (draft_duration_min draft) conn
          then Inr (CHOOSING_TIME, conn)
          else
            let price = price_for_interval start_local
                          (start_local + timedelta_minutes (draft_duration_min draft))
                          (draft_gamepads_mode draft) (draft_headsets draft);
                addons = addons_string (draft_gamepads_mode draft) (draft_headsets draft)
            in Inr (ConversationHandler_END,
                 insert_row conn
                   \<lparr>booking_id = 0, user_id = uid, username = uname, name = draft_name draft,
                    phone = phone_in,
                    start_ts = to_utc tzoff start_local,
                    end_ts = to_utc tzoff
                      (start_local + timedelta_minutes (draft_duration_min draft)),
                    duration_min = draft_duration_min draft, addons = addons,
                    price_total = price, status = ''pending'', created_ts = now\<rparr>))"

subsection \<open>The admin's technical block: \<open>admin_block\<close>\<close>

datatype block_reply = No_reply | Format_help | Overlap_refused | Block_added

definition admin_block ::
  "int \<Rightarrow> int \<Rightarrow> int list \<Rightarrow> int \<Rightarrow> (int \<times> int) option \<Rightarrow> booking list
     \<Rightarrow> block_reply \<times> booking list" where
  \<comment> \<open>\<open>ADMINS\<close>: the configured ids; \<open>parsed\<close>: \<open>Some (d, dur)\<close> when the text splits into
      four words, the date and time parse (\<open>d\<close>, localized) and \<open>dur\<close> is an int,
      \<open>None\<close> when the \<open>try\<close> block raises\<close>
  "admin_block tzoff now ADMINS uid parsed conn =
     (if uid \<notin> set ADMINS then (No_reply, conn)
      else case parsed of
        None \<Rightarrow> (Format_help, conn)
      | Some (d, dur) \<Rightarrow>
          let start_utc = to_utc tzoff d;
              end_utc = to_utc tzoff (d + timedelta_minutes dur)
          in if overlaps conn start_utc end_utc then (Overlap_refused, conn)
             else (Block_added,
               insert_row conn
                 \<lparr>booking_id = 0, user_id = 0, username = [], name = Some ''BLOCK'',
                  phone = [], start_ts = start_utc, end_ts = end_utc,
                  duration_min = dur, addons = [], price_total = 0,
                  status = ''blocked'', created_ts = now\<rparr>))"

subsection \<open>The spec's overlap of two intervals\<close>

definition spec_overlap :: "int \<times> int \<Rightarrow> int \<times> int \<Rightarrow> bool" where
  \<comment> \<open>the spec's words: \<open>NOT (a.end <= b.start OR a.start >= b.end)\<close>\<close>
  "spec_overlap a b = (\<not> (snd a \<le> fst b \<or> fst a \<ge> snd b))"

subsection \<open>Notions used to state the pricing theorems\<close>

definition minutes_charged :: "int \<Rightarrow> int \<Rightarrow> nat" where
  \<comment> \<open>the number of passes through the loop of \<open>price_for_interval\<close>: the minutes begun
      between the start and the end\<close>
  "minutes_charged start_local end_local = nat ((end_local - start_local + 59) div 60)"

definition minute_rates :: "int \<Rightarrow> int \<Rightarrow> int list" where
  \<comment> \<open>the hourly rate of each of these minutes, read at the minute's first instant\<close>
  "minute_rates start_local end_local =
     map (\<lambda>k. rate_at (start_local + 60 * int k)) [0..<minutes_charged start_local end_local]"

definition representable :: "rat \<Rightarrow> bool" where
  \<comment> \<open>the rational is a binary64 number\<close>
  "representable a \<longleftrightarrow> double_round a = a"

definition exact_total :: "int \<Rightarrow> int \<Rightarrow> string \<Rightarrow> bool \<Rightarrow> rat" where
  \<comment> \<open>the total of \<open>price_for_interval\<close> before rounding, in exact arithmetic\<close>
  "exact_total start_local end_local gamepads_mode headsets =
     of_int (sum_list (minute_rates start_local end_local)) / 60
     + (if gamepads_mode = ''squad''
        then 100 / 60 * of_int ((end_local - start_local) div 60) else 0)
     + (if headsets then 150 else 0)"

definition example_row :: "int \<Rightarrow> int \<Rightarrow> string \<Rightarrow> booking" where
  \<comment> \<open>a stored row occupying \<open>[s, e)\<close> (UTC seconds) with the given status, for examples\<close>
  "example_row s e st =
     \<lparr>booking_id = 1, user_id = 7, username = ''guest'', name = Some ''Guest'',
      phone = ''+70000000000'', start_ts = s, end_ts = e, duration_min = (e - s) div 60,
      addons = [], price_total = 0, status = st, created_ts = 0\<rparr>"

declare iter_open_slots_loop.simps [simp del]
declare price_loop.simps [simp del]

lemmas time_defs =
  timedelta_minutes_def timedelta_days_def time_hm_def time_of_def replace_hour_def
  to_utc_def local_dt_def

lemmas const_defs =
  OPEN_TIME_hour_def CLOSE_TIME_hour_def SLOT_STEP_MIN_def BUFFER_MIN_def DAY_RATE_def
  EVE_RATE_def

section \<open>The conflict check\<close>

text \<open>
  Claim C2. The commit-time check of \<open>enter_phone\<close> answers true exactly when the
  candidate, its end moved forward by the buffer, overlaps (in the spec's sense, in UTC
  seconds) a stored row whose status is pending, confirmed or blocked. A row that ends
  where the candidate starts, or starts where the extended candidate ends, is no
  conflict, and cancelled rows can be dropped from the table without changing the answer.
\<close>

theorem conflict_iff_active_overlap:
  "(enter_phone_conflict tzoff start_local dur_min conn \<longleftrightarrow>
      (\<exists>r \<in> set conn. status r \<in> {''pending'', ''confirmed'', ''blocked''} \<and>
         spec_overlap (start_ts r, end_ts r)
           (to_utc tzoff start_local,
            to_utc tzoff (start_local + timedelta_minutes dur_min)
              + timedelta_minutes BUFFER_MIN)))
   \<and> (end_ts r0 = to_utc tzoff start_local
        \<longrightarrow> \<not> enter_phone_conflict tzoff start_local dur_min [r0])
   \<and> (start_ts r0 = to_utc tzoff (start_local + timedelta_minutes dur_min)
                       + timedelta_minutes BUFFER_MIN
        \<longrightarrow> \<not> enter_phone_conflict tzoff start_local dur_min [r0])
   \<and> enter_phone_conflict tzoff start_local dur_min conn
       = enter_phone_conflict tzoff start_local dur_min
           (filter (\<lambda>r. status r \<noteq> ''cancelled'') conn)"
  by (auto simp add: enter_phone_conflict_def overlaps_def spec_overlap_def list_ex_iff
      to_utc_def timedelta_minutes_def)

theorem conflict_iff_active_overlap_witness:
  "enter_phone_conflict 10800 (local_dt 0 14 30) 60
     [example_row (to_utc 10800 (local_dt 0 14 0)) (to_utc 10800 (local_dt 0 15 0)) ''pending'']
   \<and> \<not> enter_phone_conflict 10800 (local_dt 0 15 0) 60
     [example_row (to_utc 10800 (local_dt 0 14 0)) (to_utc 10800 (local_dt 0 15 0)) ''pending'']
   \<and> \<not> enter_phone_conflict 10800 (local_dt 0 14 30) 60
     [example_row (to_utc 10800 (local_dt 0 14 0)) (to_utc 10800 (local_dt 0 15 0)) ''cancelled'']"
  using
    conflict_iff_active_overlap [where tzoff = 10800 and start_local = "local_dt 0 14 30"
      and dur_min = 60
      and conn = "[example_row (to_utc 10800 (local_dt 0 14 0)) (to_utc 10800 (local_dt 0 15 0)) ''pending'']"
      and ?r0.0 = "example_row (to_utc 10800 (local_dt 0 14 0)) (to_utc 10800 (local_dt 0 15 0)) ''pending''"]
    conflict_iff_active_overlap [where tzoff = 10800 and start_local = "local_dt 0 15 0"
      and dur_min = 60 and conn = "[]"
      and ?r0.0 = "example_row (to_utc 10800 (local_dt 0 14 0)) (to_utc 10800 (local_dt 0 15 0)) ''pending''"]
    conflict_iff_active_overlap [where tzoff = 10800 and start_local = "local_dt 0 14 30"
      and dur_min = 60
      and conn = "[example_row (to_utc 10800 (local_dt 0 14 0)) (to_utc 10800 (local_dt 0 15 0)) ''cancelled'']"
      and ?r0.0 = "example_row (to_utc 10800 (local_dt 0 14 0)) (to_utc 10800 (local_dt 0 15 0)) ''pending''"]
  by (simp add: example_row_def spec_overlap_def time_defs const_defs)

text \<open>
  Claim C1. The stored reservation 14:00 to 15:00 is confirmed and the buffer is 10
  minutes. The claim wants the candidate 15:05 to 16:00 refused. The check extends only
  the candidate's own end, so a candidate that starts after a stored row ends is accepted
  whatever the gap: 15:05 to 16:00 is accepted, and so is 15:00 to 16:00. The candidate
  15:10 to 16:00 is accepted, as the claim says.
\<close>

theorem commit_accepts_gap_below_buffer:
  "\<not> enter_phone_conflict 10800 (local_dt 0 15 5) 55
     [example_row (to_utc 10800 (local_dt 0 14 0)) (to_utc 10800 (local_dt 0 15 0))
        ''confirmed'']
   \<and> \<not> enter_phone_conflict 10800 (local_dt 0 15 0) 60
     [example_row (to_utc 10800 (local_dt 0 14 0)) (to_utc 10800 (local_dt 0 15 0))
        ''confirmed'']
   \<and> \<not> enter_phone_conflict 10800 (local_dt 0 15 10) 50
     [example_row (to_utc 10800 (local_dt 0 14 0)) (to_utc 10800 (local_dt 0 15 0))
        ''confirmed'']"
  by (simp add: enter_phone_conflict_def overlaps_def example_row_def time_defs const_defs)

text \<open>
  Claim C7. With A = 14:00 to 15:00 and B = 15:00 to 16:00, the candidate A is refused
  against a table holding B (its extended end 15:10 reaches into B), while the candidate B
  is accepted against a table holding A: the check is not symmetric.
\<close>

theorem conflict_check_not_symmetric:
  "enter_phone_conflict 10800 (local_dt 0 14 0) 60
     [example_row (to_utc 10800 (local_dt 0 15 0)) (to_utc 10800 (local_dt 0 16 0))
        ''confirmed'']
   \<and> \<not> enter_phone_conflict 10800 (local_dt 0 15 0) 60
     [example_row (to_utc 10800 (local_dt 0 14 0)) (to_utc 10800 (local_dt 0 15 0))
        ''confirmed'']"
  by (simp add: enter_phone_conflict_def overlaps_def example_row_def time_defs const_defs)

section \<open>What is stored\<close>

text \<open>
  Claim C9. When \<open>enter_phone\<close> ends the conversation it has appended exactly one row;
  the row's interval is the un-buffered one (\<open>end_ts - start_ts\<close> is \<open>duration_min\<close> times
  60 seconds, starting at the draft's start), and its status is pending. When it sends the
  user back to the choice of a time, the table is unchanged. When \<open>admin_block\<close> adds a
  block it has appended exactly one row, of status blocked, with
  \<open>end_ts - start_ts = 60 * duration_min\<close>; in every other case the table is unchanged.
\<close>

theorem stored_interval_is_unbuffered:
  "(enter_phone tzoff now uid uname phone_in draft conn = Inr (st, conn') \<longrightarrow>
      (st = CHOOSING_TIME \<and> conn' = conn) \<or>
      (st = ConversationHandler_END \<and>
       (\<exists>r. conn' = conn @ [r]
          \<and> Some (start_ts r) = map_option (to_utc tzoff) (draft_start_dt draft)
          \<and> duration_min r = draft_duration_min draft
          \<and> end_ts r - start_ts r = duration_min r * 60
          \<and> status r = ''pending'')))
   \<and> (admin_block tzoff now ADMINS uid parsed conn = (rep, conn'') \<longrightarrow>
      (rep \<noteq> Block_added \<and> conn'' = conn) \<or>
      (rep = Block_added \<and>
       (\<exists>r. conn'' = conn @ [r]
          \<and> end_ts r - start_ts r = duration_min r * 60
          \<and> status r = ''blocked'')))"
  by (auto simp add: enter_phone_def admin_block_def insert_row_def Let_def to_utc_def
      timedelta_minutes_def split: option.splits if_splits)

theorem stored_interval_is_unbuffered_witness:
  "\<exists>r. snd (projr (enter_phone 10800 0 7 ''guest'' ''+70000000000''
        \<lparr>draft_date = Some (local_dt 0 0 0), draft_duration_min = 60,
         draft_start_dt = Some (local_dt 0 13 0), draft_gamepads_mode = ''duo'',
         draft_headsets = False, draft_name = Some ''Guest'', draft_phone = None\<rparr> [])) = [r]
      \<and> end_ts r - start_ts r = 3600 \<and> status r = ''pending''"
  using stored_interval_is_unbuffered [where tzoff = 10800 and now = 0 and uid = 7
      and uname = "''guest''" and phone_in = "''+70000000000''"
      and draft = "\<lparr>draft_date = Some (local_dt 0 0 0), draft_duration_min = 60,
         draft_start_dt = Some (local_dt 0 13 0), draft_gamepads_mode = ''duo'',
         draft_headsets = False, draft_name = Some ''Guest'', draft_phone = None\<rparr>"
      and conn = "[]" and st = ConversationHandler_END
      and conn' = "snd (projr (enter_phone 10800 0 7 ''guest'' ''+70000000000''
        \<lparr>draft_date = Some (local_dt 0 0 0), draft_duration_min = 60,
         draft_start_dt = Some (local_dt 0 13 0), draft_gamepads_mode = ''duo'',
         draft_headsets = False, draft_name = Some ''Guest'', draft_phone = None\<rparr> []))"
      and ADMINS = "[]" and parsed = None and rep = No_reply and conn'' = "[]"]
  by (simp add: enter_phone_def enter_phone_conflict_def overlaps_def insert_row_def
      admin_block_def Let_def)

section \<open>The slot generator\<close>

text \<open>The loop in closed form: the slots are the grid points from the opening instant.\<close>

lemma iter_open_slots_loop_closed:
  "iter_open_slots_loop cur dur close_dt slots =
     slots @ map (\<lambda>i. (cur + 3600 * int i, cur + 3600 * int i + dur))
               [0..<nat ((close_dt - cur - dur - 600) div 3600 + 1)]"
proof (induction cur dur close_dt slots rule: iter_open_slots_loop.induct)
  case (1 cur dur close_dt slots)
  show ?case
  proof (cases "cur + dur + timedelta_minutes BUFFER_MIN \<le> close_dt")
    case True
    let ?n = "nat ((close_dt - (cur + 3600) - dur - 600) div 3600 + 1)"
    from True have le: "cur + dur + 600 \<le> close_dt"
      by (simp add: timedelta_minutes_def BUFFER_MIN_def)
    have "(close_dt - cur - dur - 600) div 3600 = (close_dt - (cur + 3600) - dur - 600) div 3600 + 1"
      by (simp add: algebra_simps div_add_self2) 
    moreover have "0 \<le> (close_dt - cur - dur - 600) div 3600"
      using le by (simp add: pos_imp_zdiv_nonneg_iff)
    ultimately have n: "nat ((close_dt - cur - dur - 600) div 3600 + 1) = Suc ?n"
      by linarith
    have ih: "iter_open_slots_loop (cur + 3600) dur close_dt (slots @ [(cur, cur + dur)]) =
        (slots @ [(cur, cur + dur)]) @ map (\<lambda>i. (cur + 3600 + 3600 * int i, cur + 3600 + 3600 * int i + dur)) [0..<?n]"
      using "1.IH"[OF True] by (simp add: timedelta_minutes_def SLOT_STEP_MIN_def)
    have shift: "map (\<lambda>i. (cur + 3600 * int i, cur + 3600 * int i + dur)) [0..<Suc ?n] =
       (cur, cur + dur) # map (\<lambda>i. (cur + 3600 + 3600 * int i, cur + 3600 + 3600 * int i + dur)) [0..<?n]"
      unfolding upt_conv_Cons[OF zero_less_Suc] map_Suc_upt[symmetric]
      by (simp add: comp_def algebra_simps)
    show ?thesis
      apply (subst iter_open_slots_loop.simps)
      using True ih shift n by (simp add: timedelta_minutes_def SLOT_STEP_MIN_def)
  next
    case False
    then have "(close_dt - cur - dur - 600) div 3600 + 1 \<le> 0"
      by (simp add: timedelta_minutes_def BUFFER_MIN_def div_neg_pos_less0 add1_zle_eq) 
    then have "nat ((close_dt - cur - dur - 600) div 3600 + 1) = 0" by simp
    with False show ?thesis
      by (subst iter_open_slots_loop.simps) simp
  qed
qed

lemma iter_open_slots_closed:
  "iter_open_slots date_local dm =
     map (\<lambda>i. (replace_hour date_local OPEN_TIME_hour + 3600 * int i,
               replace_hour date_local OPEN_TIME_hour + 3600 * int i + timedelta_minutes dm))
       [0..<nat ((replace_hour (date_local + timedelta_days 1) CLOSE_TIME_hour
                   - replace_hour date_local OPEN_TIME_hour - timedelta_minutes dm - 600) div 3600 + 1)]"
  by (simp add: iter_open_slots_def Let_def iter_open_slots_loop_closed)

text \<open>
  Claim C5. For a business day and a duration in minutes, every slot returned starts at or
  after the opening instant (13:00 of the day), has \<open>start + duration + buffer\<close> at or
  before the closing instant (02:00 of the next day, 13 hours after the opening), and ends
  at \<open>start + duration\<close>, without the buffer. The slot of index \<open>i\<close> starts \<open>i\<close> steps after
  the opening, so the list is in strictly increasing order of start. When not even the
  opening instant fits before the closing, the list is empty. The generator is a total
  function: its loop terminates for every input.
\<close>

theorem iter_open_slots_spec:
  fixes date_local dm :: int
  defines "opening \<equiv> replace_hour date_local OPEN_TIME_hour"
    and "closing \<equiv> replace_hour (date_local + timedelta_days 1) CLOSE_TIME_hour"
    and "dur \<equiv> timedelta_minutes dm"
    and "buf \<equiv> timedelta_minutes BUFFER_MIN"
    and "step \<equiv> timedelta_minutes SLOT_STEP_MIN"
    and "slots \<equiv> iter_open_slots date_local dm"
  shows "(\<forall>(s, e) \<in> set slots. opening \<le> s \<and> s + dur + buf \<le> closing \<and> e = s + dur)
    \<and> (\<forall>i < length slots. fst (slots ! i) = opening + step * int i)
    \<and> sorted_wrt (\<lambda>a b. fst a < fst b) slots
    \<and> (closing < opening + dur + buf \<longrightarrow> slots = [])
    \<and> time_of opening = time_hm 13 0 \<and> time_of closing = time_hm 2 0
    \<and> closing = opening + 13 * 3600"
proof -
  define n where "n = nat ((closing - opening - dur - 600) div 3600 + 1)"
  have sl: "slots = map (\<lambda>i. (opening + 3600 * int i, opening + 3600 * int i + dur)) [0..<n]"
    unfolding slots_def iter_open_slots_closed n_def opening_def closing_def dur_def ..
  have bound: "opening + 3600 * int i + dur + buf \<le> closing" if "i < n" for i
  proof -
    from that have "int i \<le> (closing - opening - dur - 600) div 3600"
      unfolding n_def by linarith
    then have "3600 * int i \<le> closing - opening - dur - 600"
      by linarith
    then show ?thesis by (simp add: buf_def timedelta_minutes_def BUFFER_MIN_def)
  qed
  have p1: "\<forall>(s, e) \<in> set slots. opening \<le> s \<and> s + dur + buf \<le> closing \<and> e = s + dur"
    unfolding sl using bound by auto
  have p2: "\<forall>i < length slots. fst (slots ! i) = opening + step * int i"
    unfolding sl by (simp add: step_def timedelta_minutes_def SLOT_STEP_MIN_def)
  have p3: "sorted_wrt (\<lambda>a b. fst a < fst b) slots"
    unfolding sl by (simp add: sorted_wrt_map) 
  have p4: "closing < opening + dur + buf \<longrightarrow> slots = []"
  proof
    assume "closing < opening + dur + buf"
    then have "closing - opening - dur - 600 < 0"
      by (simp add: buf_def timedelta_minutes_def BUFFER_MIN_def)
    then have "(closing - opening - dur - 600) div 3600 < 0"
      by (simp add: div_neg_pos_less0)
    then have "n = 0" unfolding n_def by simp
    then show "slots = []" unfolding sl by simp
  qed
  have p5: "time_of opening = time_hm 13 0" "time_of closing = time_hm 2 0"
    "closing = opening + 13 * 3600"
    unfolding opening_def closing_def
    by (simp_all add: time_defs const_defs)
  from p1 p2 p3 p4 p5 show ?thesis by blast
qed


theorem iter_open_slots_spec_witness:
  "iter_open_slots (local_dt 0 0 0) 800 = []
   \<and> (local_dt 0 13 0, local_dt 0 15 0) \<in> set (iter_open_slots (local_dt 0 0 0) 120)
   \<and> fst (iter_open_slots (local_dt 0 0 0) 120 ! 3) = local_dt 0 16 0
   \<and> length (iter_open_slots (local_dt 0 0 0) 120) = 11"
  using iter_open_slots_spec [of "local_dt 0 0 0" 800]
    iter_open_slots_spec [of "local_dt 0 0 0" 120]
  by (simp add: iter_open_slots_closed time_defs const_defs)

section \<open>Rounding to binary64\<close>

text \<open>
  Facts about \<open>double_round\<close>: the exponent it picks is the right one, the result is
  monotone in the argument, a rounded number rounds to itself, and the relative error is
  at most \<open>2 ^ -53\<close>.
\<close>

lemma pow2_pos [simp]: "0 < (2::rat) powi k"
  by simp

lemma pow2_mono: "a \<le> b \<Longrightarrow> (2::rat) powi a \<le> 2 powi b"
  by (rule power_int_increasing) simp_all

lemma pow2_strict_mono: "a < b \<Longrightarrow> (2::rat) powi a < 2 powi b"
  by (rule power_int_strict_increasing) simp_all

lemma pow2_less_cancel: "(2::rat) powi a < 2 powi b \<Longrightarrow> a < b"
  using pow2_mono [of b a] by (cases "a < b") auto

lemma pow2_Suc: "(2::rat) powi (k + 1) = 2 * 2 powi k"
  by (simp add: power_int_add)

lemma pow2_diff: "(2::rat) powi (a - b) = 2 powi a / 2 powi b"
  by (simp add: power_int_diff)

lemma pow2_of_nat: "(2::rat) powi (int n) = 2 ^ n"
  by simp

lemma ilog2_bounds:
  assumes "0 < x"
  shows "2 powi (ilog2 x) \<le> x" and "x < 2 powi (ilog2 x + 1)"
proof -
  obtain p q where pq: "quotient_of x = (p, q)" by (cases "quotient_of x")
  then have q: "0 < q" and x: "x = of_int p / of_int q"
    using quotient_of_denom_pos quotient_of_div by blast+
  from assms x q have p: "0 < p"
    by (simp add: zero_less_divide_iff)
  define k where "k = bitlen p - bitlen q"
  have bp: "1 \<le> bitlen p" and bq: "1 \<le> bitlen q"
    using p q bitlen_eq_zero_iff [of p] bitlen_eq_zero_iff [of q] bitlen_nonneg [of p] bitlen_nonneg [of q]
    by linarith+
  from bitlen_bounds [OF p] have p1: "(2::rat) powi (bitlen p - 1) \<le> of_int p"
    and p2: "of_int p < (2::rat) powi (bitlen p)"
    using bp
    by (metis (no_types, opaque_lifting) bitlen_nonneg diff_ge_0_iff_ge int_nat_eq of_int_le_iff of_int_numeral of_int_power pow2_of_nat,
        metis (no_types, opaque_lifting) bitlen_nonneg int_nat_eq of_int_less_iff of_int_numeral of_int_power pow2_of_nat)
  from bitlen_bounds [OF q] have q1: "(2::rat) powi (bitlen q - 1) \<le> of_int q"
    and q2: "of_int q < (2::rat) powi (bitlen q)"
    using bq
    by (metis (no_types, opaque_lifting) bitlen_nonneg diff_ge_0_iff_ge int_nat_eq of_int_le_iff of_int_numeral of_int_power pow2_of_nat,
        metis (no_types, opaque_lifting) bitlen_nonneg int_nat_eq of_int_less_iff of_int_numeral of_int_power pow2_of_nat)
  have qpos: "(0::rat) < of_int q" using q by simp
  have ppos: "(0::rat) < of_int p" using p by simp
  have lower: "2 powi (k - 1) < x"
  proof -
    have "2 powi (k - 1) * of_int q < (2::rat) powi (k - 1) * 2 powi (bitlen q)"
      using q2 by simp
    also have "\<dots> = 2 powi (bitlen p - 1)"
      by (simp add: k_def power_int_add [symmetric])
    also have "\<dots> \<le> of_int p" by (rule p1)
    finally show ?thesis using qpos by (simp add: x pos_less_divide_eq)
  qed
  have upper: "x < 2 powi (k + 1)"
  proof -
    have "of_int p < (2::rat) powi (bitlen p)" by (rule p2)
    also have "\<dots> = 2 powi (k + 1) * 2 powi (bitlen q - 1)"
      by (simp add: k_def power_int_add [symmetric])
    also have "\<dots> \<le> 2 powi (k + 1) * of_int q"
      using q1 by simp
    finally show ?thesis using qpos by (simp add: x pos_divide_less_eq)
  qed
  have il: "ilog2 x = (if 2 powi k \<le> x then k else k - 1)"
    by (simp add: ilog2_def pq k_def Let_def)
  show "2 powi (ilog2 x) \<le> x" using lower by (simp add: il)
  show "x < 2 powi (ilog2 x + 1)" using upper by (simp add: il)
qed

lemma ilog2_unique:
  assumes "2 powi e \<le> x" "x < 2 powi (e + 1)"
  shows "ilog2 x = e"
proof -
  have x: "0 < x" using assms(1) pow2_pos [of e] by linarith
  from ilog2_bounds [OF x] assms
  have "(2::rat) powi e < 2 powi (ilog2 x + 1)" "(2::rat) powi (ilog2 x) < 2 powi (e + 1)"
    by linarith+
  then have "e < ilog2 x + 1" "ilog2 x < e + 1"
    by (auto dest: pow2_less_cancel)
  then show ?thesis by simp
qed

lemma ilog2_mono: "0 < x \<Longrightarrow> x \<le> y \<Longrightarrow> ilog2 x \<le> ilog2 y"
proof -
  assume x: "0 < x" and xy: "x \<le> y"
  then have y: "0 < y" by simp
  from ilog2_bounds(1) [OF x] ilog2_bounds(2) [OF y] xy
  have "(2::rat) powi (ilog2 x) < 2 powi (ilog2 y + 1)" by linarith
  then show ?thesis by (auto dest: pow2_less_cancel)
qed

lemma rhe_cases:
  "round_half_even x = \<lfloor>x\<rfloor> \<or> round_half_even x = \<lfloor>x\<rfloor> + 1"
  by (simp add: round_half_even_def Let_def)

lemma rhe_error: "\<bar>of_int (round_half_even x) - x\<bar> \<le> 1 / 2"
proof -
  have "of_int \<lfloor>x\<rfloor> \<le> x" "x < of_int \<lfloor>x\<rfloor> + 1" by linarith+
  then show ?thesis
    by (auto simp add: round_half_even_def Let_def abs_le_iff)
qed

lemma rhe_of_int [simp]: "round_half_even (of_int n) = n"
  by (simp add: round_half_even_def)

lemma rhe_numeral [simp]: "round_half_even (numeral n) = numeral n"
  by (simp add: round_half_even_def)

lemma rhe_mono:
  assumes "x \<le> y"
  shows "round_half_even x \<le> round_half_even y"
proof (cases "\<lfloor>x\<rfloor> = \<lfloor>y\<rfloor>")
  case True
  then show ?thesis using assms
    by (auto simp add: round_half_even_def Let_def)
next
  case False
  with assms have "\<lfloor>x\<rfloor> < \<lfloor>y\<rfloor>"
    using floor_mono [OF assms] by linarith
  moreover have "round_half_even x \<le> \<lfloor>x\<rfloor> + 1" "\<lfloor>y\<rfloor> \<le> round_half_even y"
    using rhe_cases [of x] rhe_cases [of y] by linarith+
  ultimately show ?thesis by linarith
qed

lemma rhe_minus: "round_half_even (- x) = - round_half_even x"
proof (cases "x = of_int \<lfloor>x\<rfloor>")
  case True
  then obtain n where "x = of_int n" ..
  then show ?thesis
    by (simp del: of_int_minus add: of_int_minus [symmetric])
next
  case False
  then have lt: "of_int \<lfloor>x\<rfloor> < x"
    using of_int_floor_le [of x] by linarith
  have fl: "\<lfloor>- x\<rfloor> = - \<lfloor>x\<rfloor> - 1"
  proof (rule floor_unique)
    show "of_int (- \<lfloor>x\<rfloor> - 1) \<le> - x"
      using floor_correct [of x] by simp
    show "- x < of_int (- \<lfloor>x\<rfloor> - 1) + 1"
      using lt by simp
  qed
  show ?thesis
    using lt floor_correct [of x] unfolding round_half_even_def Let_def fl
    by (auto simp add: algebra_simps)
qed

lemma double_round_pos_eq:
  "0 < x \<Longrightarrow> double_round x
     = of_int (round_half_even (x / 2 powi (ilog2 x - 52))) * 2 powi (ilog2 x - 52)"
  by (simp add: double_round_def Let_def)

lemma double_round_minus: "double_round (- x) = - double_round x"
  by (simp add: double_round_def Let_def rhe_minus)

lemma double_round_zero [simp]: "double_round 0 = 0"
  by (simp add: double_round_def)

lemma mantissa_bounds:
  assumes "0 < x"
  defines "m \<equiv> round_half_even (x / 2 powi (ilog2 x - 52))"
  shows "2 ^ 52 \<le> m" and "m \<le> 2 ^ 53"
proof -
  let ?u = "(2::rat) powi (ilog2 x - 52)"
  have u: "0 < ?u" by simp
  have "2 powi (ilog2 x) / ?u \<le> x / ?u"
    using ilog2_bounds(1) [OF assms(1)] u by (simp add: divide_right_mono)
  moreover have "2 powi (ilog2 x) / ?u = of_int (2 ^ 52)"
    by (simp add: pow2_diff)
  ultimately have "round_half_even (of_int (2 ^ 52)) \<le> m"
    unfolding m_def by (metis rhe_mono)
  then show "2 ^ 52 \<le> m" by simp
  have "x / ?u \<le> 2 powi (ilog2 x + 1) / ?u"
    using ilog2_bounds(2) [OF assms(1)] u by (simp add: divide_right_mono)
  moreover have "2 powi (ilog2 x + 1) / ?u = of_int (2 ^ 53)"
    by (simp add: pow2_diff power_int_add)
  ultimately have "m \<le> round_half_even (of_int (2 ^ 53))"
    unfolding m_def by (metis rhe_mono)
  then show "m \<le> 2 ^ 53" by simp
qed

lemma double_round_bounds:
  assumes "0 < x"
  shows "2 powi (ilog2 x) \<le> double_round x" and "double_round x \<le> 2 powi (ilog2 x + 1)"
proof -
  let ?u = "(2::rat) powi (ilog2 x - 52)"
  let ?m = "round_half_even (x / ?u)"
  have e1: "(2::rat) powi (ilog2 x) = of_int (2 ^ 52) * ?u"
    by (simp add: pow2_diff)
  have e2: "(2::rat) powi (ilog2 x + 1) = of_int (2 ^ 53) * ?u"
    by (simp add: pow2_diff power_int_add)
  have "(of_int (2 ^ 52) :: rat) \<le> of_int ?m" "(of_int ?m :: rat) \<le> of_int (2 ^ 53)"
    using mantissa_bounds [OF assms] by (simp_all only: of_int_le_iff)
  then have "of_int (2 ^ 52) * ?u \<le> of_int ?m * ?u" "of_int ?m * ?u \<le> of_int (2 ^ 53) * ?u"
    by (simp_all only: mult_le_cancel_right_pos pow2_pos)
  then show "2 powi (ilog2 x) \<le> double_round x" "double_round x \<le> 2 powi (ilog2 x + 1)"
    unfolding e1 e2 double_round_pos_eq [OF assms] by simp_all
qed

lemma double_round_pos: "0 < x \<Longrightarrow> 0 < double_round x"
  using double_round_bounds(1) [of x] pow2_pos [of "ilog2 x"] by linarith

lemma double_round_mono_pos:
  assumes "0 < x" "x \<le> y"
  shows "double_round x \<le> double_round y"
proof -
  have y: "0 < y" using assms by simp
  have le: "ilog2 x \<le> ilog2 y" using assms by (rule ilog2_mono)
  show ?thesis
  proof (cases "ilog2 x = ilog2 y")
    case True
    let ?u = "(2::rat) powi (ilog2 y - 52)"
    have "x / ?u \<le> y / ?u" using assms(2) by (simp add: divide_right_mono)
    then have "round_half_even (x / ?u) \<le> round_half_even (y / ?u)" by (rule rhe_mono)
    then have "(of_int (round_half_even (x / ?u)) :: rat) * ?u \<le> of_int (round_half_even (y / ?u)) * ?u"
      by (simp only: mult_le_cancel_right_pos pow2_pos of_int_le_iff)
    then show ?thesis
      by (simp only: double_round_pos_eq [OF assms(1)] double_round_pos_eq [OF y] True)
  next
    case False
    with le have "ilog2 x + 1 \<le> ilog2 y" by simp
    then have "(2::rat) powi (ilog2 x + 1) \<le> 2 powi (ilog2 y)" by (rule pow2_mono)
    with double_round_bounds(2) [OF assms(1)] double_round_bounds(1) [OF y]
    show ?thesis by linarith
  qed
qed

lemma double_round_mono:
  assumes "x \<le> y"
  shows "double_round x \<le> double_round y"
proof -
  consider "0 < x" | "x = 0" | "x < 0 \<and> y < 0" | "x < 0 \<and> 0 \<le> y" by linarith
  then show ?thesis
  proof cases
    case 1
    then show ?thesis using assms by (rule double_round_mono_pos)
  next
    case 2
    then show ?thesis
      using assms double_round_pos [of y] by (cases "y = 0") (auto simp: less_eq_rat_def)
  next
    case 3
    then have "0 < - y" "- y \<le> - x" using assms by simp_all
    then have "double_round (- y) \<le> double_round (- x)" by (rule double_round_mono_pos)
    then show ?thesis by (simp add: double_round_minus)
  next
    case 4
    then have "0 < double_round (- x)" by (simp add: double_round_pos)
    then have "double_round x < 0" by (simp add: double_round_minus)
    moreover have "0 \<le> double_round y"
      using 4 double_round_pos [of y] by (cases "y = 0") (auto simp: less_eq_rat_def)
    ultimately show ?thesis by linarith
  qed
qed

lemma double_round_idem_pos:
  assumes "0 < x"
  shows "double_round (double_round x) = double_round x"
proof -
  let ?e = "ilog2 x"
  let ?u = "(2::rat) powi (?e - 52)"
  let ?m = "round_half_even (x / ?u)"
  have dr: "double_round x = of_int ?m * ?u" by (rule double_round_pos_eq [OF assms])
  have dpos: "0 < double_round x" by (rule double_round_pos [OF assms])
  show ?thesis
  proof (cases "double_round x < 2 powi (?e + 1)")
    case True
    with double_round_bounds(1) [OF assms] have "ilog2 (double_round x) = ?e"
      by (intro ilog2_unique) 
    then have "double_round (double_round x)
        = of_int (round_half_even (double_round x / ?u)) * ?u"
      by (simp add: double_round_pos_eq [OF dpos])
    also have "double_round x / ?u = of_int ?m" by (simp add: dr)
    finally show ?thesis by (simp add: dr)
  next
    case False
    with double_round_bounds(2) [OF assms] have eq: "double_round x = 2 powi (?e + 1)" by simp
    have "ilog2 (2 powi (?e + 1)) = ?e + 1"
      by (rule ilog2_unique) (simp_all add: pow2_strict_mono)
    then have "double_round (2 powi (?e + 1))
        = of_int (round_half_even (2 powi (?e + 1) / 2 powi (?e + 1 - 52))) * 2 powi (?e + 1 - 52)"
      by (simp add: double_round_pos_eq)
    also have "(2::rat) powi (?e + 1) / 2 powi (?e + 1 - 52) = of_int (2 ^ 52)"
      by (simp add: pow2_diff power_int_add)
    also have "of_int (round_half_even (of_int (2 ^ 52))) * 2 powi (?e + 1 - 52) = (2::rat) powi (?e + 1)"
      by (simp add: pow2_diff power_int_add)
    finally show ?thesis by (simp add: eq)
  qed
qed

lemma double_round_idem [simp]: "double_round (double_round x) = double_round x"
proof -
  consider "0 < x" | "x = 0" | "x < 0" by linarith
  then show ?thesis
  proof cases
    case 1 then show ?thesis by (rule double_round_idem_pos)
  next
    case 2 then show ?thesis by simp
  next
    case 3
    then have "double_round (double_round (- x)) = double_round (- x)"
      by (intro double_round_idem_pos) simp
    then show ?thesis by (simp add: double_round_minus)
  qed
qed

lemma double_round_error_pos:
  assumes "0 < x"
  shows "\<bar>double_round x - x\<bar> \<le> x / 2 ^ 53"
proof -
  let ?u = "(2::rat) powi (ilog2 x - 52)"
  let ?m = "round_half_even (x / ?u)"
  have u: "0 < ?u" by simp
  have "\<bar>of_int ?m - x / ?u\<bar> \<le> 1 / 2" by (rule rhe_error)
  then have "\<bar>of_int ?m - x / ?u\<bar> * ?u \<le> 1 / 2 * ?u"
    using u by (simp only: mult_le_cancel_right_pos)
  moreover have "\<bar>of_int ?m - x / ?u\<bar> * ?u = \<bar>of_int ?m * ?u - x\<bar>"
  proof -
    have "\<bar>of_int ?m - x / ?u\<bar> * ?u = \<bar>(of_int ?m - x / ?u) * ?u\<bar>"
      using u by (simp add: abs_mult)
    also have "(of_int ?m - x / ?u) * ?u = of_int ?m * ?u - x"
      using u by (simp add: algebra_simps)
    finally show ?thesis .
  qed
  moreover have "1 / 2 * ?u = 2 powi (ilog2 x) / 2 ^ 53"
    by (simp add: pow2_diff)
  moreover have "2 powi (ilog2 x) / 2 ^ 53 \<le> x / 2 ^ 53"
    using ilog2_bounds(1) [OF assms] by (simp add: divide_right_mono)
  ultimately show ?thesis
    by (simp add: double_round_pos_eq [OF assms])
qed

lemma double_round_error: "\<bar>double_round x - x\<bar> \<le> \<bar>x\<bar> / 2 ^ 53"
proof -
  consider "0 < x" | "x = 0" | "x < 0" by linarith
  then show ?thesis
  proof cases
    case 1 then show ?thesis using double_round_error_pos [of x] by simp
  next
    case 2 then show ?thesis by simp
  next
    case 3
    then have "\<bar>double_round (- x) - (- x)\<bar> \<le> (- x) / 2 ^ 53"
      by (intro double_round_error_pos) simp
    moreover have "\<bar>double_round (- x) - (- x)\<bar> = \<bar>double_round x - x\<bar>"
      by (simp add: double_round_minus abs_minus_commute)
    ultimately show ?thesis using 3 by simp
  qed
qed

section \<open>Pricing\<close>

text \<open>The loop of \<open>price_for_interval\<close> adds, from left to right in float arithmetic, the
  float \<open>rate / 60\<close> of every minute begun.\<close>

lemma minute_rates_step:
  assumes "cur + 60 \<le> e"
  shows "minute_rates cur e = rate_at cur # minute_rates (cur + 60) e"
proof -
  let ?n = "minutes_charged (cur + 60) e"
  have "(e - cur + 59) div 60 = (e - (cur + 60) + 59) div 60 + 1" by linarith
  moreover have "0 \<le> (e - (cur + 60) + 59) div 60" using assms by linarith
  ultimately have n: "minutes_charged cur e = Suc ?n"
    unfolding minutes_charged_def by linarith
  show ?thesis
    unfolding minute_rates_def n upt_conv_Cons [OF zero_less_Suc] map_Suc_upt [symmetric]
    by (simp add: comp_def algebra_simps)
qed

lemma minute_rates_last:
  assumes "cur < e" "e < cur + 60"
  shows "minute_rates cur e = [rate_at cur]"
proof -
  have "(e - cur + 59) div 60 = 1" using assms by linarith
  then show ?thesis by (simp add: minute_rates_def minutes_charged_def)
qed

lemma minute_rates_empty:
  assumes "e \<le> cur"
  shows "minute_rates cur e = []"
proof -
  have "(e - cur + 59) div 60 \<le> 0" using assms by linarith
  then show ?thesis by (simp add: minute_rates_def minutes_charged_def)
qed

lemma price_loop_closed:
  "price_loop cur e tot
     = foldl float_add tot (map (\<lambda>r. int_truediv r 60) (minute_rates cur e))"
proof (induction cur e tot rule: price_loop.induct)
  case (1 cur e tot)
  consider "e \<le> cur" | "cur < e" "e < cur + 60" | "cur + 60 \<le> e" by linarith
  then show ?case
  proof cases
    case 1
    then show ?thesis
      by (subst price_loop.simps) (simp add: minute_rates_empty)
  next
    case 2
    then have m: "min e (cur + timedelta_minutes 1) = e" by (simp add: timedelta_minutes_def)
    have "price_loop e e (float_add tot (int_truediv (rate_at cur) 60))
        = float_add tot (int_truediv (rate_at cur) 60)"
      by (subst price_loop.simps) simp
    with 2 m show ?thesis
      by (subst price_loop.simps) (simp add: minute_rates_last)
  next
    case 3
    then have c: "cur < e" and m: "min e (cur + timedelta_minutes 1) = cur + 60"
      by (simp_all add: timedelta_minutes_def)
    from "1.IH" [OF c] m c show ?thesis
      by (subst price_loop.simps) (simp add: minute_rates_step [OF 3])
  qed
qed

lemma float_add_ge:
  assumes "representable a" "0 \<le> b"
  shows "a \<le> float_add a b"
proof -
  have "double_round a \<le> double_round (a + b)" using assms(2) by (intro double_round_mono) simp
  then show ?thesis using assms(1) by (simp add: float_add_def representable_def)
qed

lemma float_add_representable [simp]: "representable (float_add a b)"
  by (simp add: representable_def float_add_def)

lemma foldl_float_add_ge:
  "representable a \<Longrightarrow> \<forall>x \<in> set xs. 0 \<le> x \<Longrightarrow> a \<le> foldl float_add a xs"
proof (induction xs arbitrary: a)
  case Nil
  then show ?case by simp
next
  case (Cons x xs)
  have "a \<le> float_add a x" using Cons.prems by (intro float_add_ge) simp_all
  also have "\<dots> \<le> foldl float_add (float_add a x) xs"
    using Cons.prems by (intro Cons.IH) simp_all
  finally show ?case by simp
qed

lemma rate_at_pos: "0 < rate_at cur"
  by (simp add: rate_at_def DAY_RATE_def EVE_RATE_def)

lemma int_truediv_rate_nonneg: "0 \<le> int_truediv (rate_at cur) 60"
proof -
  have "(0::rat) < of_int (rate_at cur) / of_int 60"
    using rate_at_pos [of cur] by simp
  then show ?thesis
    unfolding int_truediv_def by (intro less_imp_le double_round_pos)
qed

lemma minutes_charged_mono: "e1 \<le> e2 \<Longrightarrow> minutes_charged s e1 \<le> minutes_charged s e2"
  unfolding minutes_charged_def by (intro nat_mono zdiv_mono1) simp_all

lemma price_loop_mono_end:
  assumes "e1 \<le> e2"
  shows "price_loop s e1 0 \<le> price_loop s e2 0"
proof -
  let ?f = "\<lambda>k. int_truediv (rate_at (s + 60 * int k)) 60"
  let ?n1 = "minutes_charged s e1" and ?n2 = "minutes_charged s e2"
  have le: "?n1 \<le> ?n2" using assms by (rule minutes_charged_mono)
  have eq: "price_loop s e tot = foldl float_add tot (map ?f [0..<minutes_charged s e])" for e tot
    by (simp add: price_loop_closed minute_rates_def comp_def)
  have split: "[0..<?n2] = [0..<?n1] @ [?n1..<?n2]"
    using le by (metis le_add_diff_inverse upt_add_eq_append zero_le)
  have rep: "representable (foldl float_add 0 (map ?f [0..<?n1]))"
  proof (cases "?n1")
    case 0
    then show ?thesis by (simp add: representable_def)
  next
    case (Suc m)
    then show ?thesis by simp
  qed
  have "price_loop s e2 0 = foldl float_add (price_loop s e1 0) (map ?f [?n1..<?n2])"
    by (simp add: eq split)
  moreover have "price_loop s e1 0 \<le> foldl float_add (price_loop s e1 0) (map ?f [?n1..<?n2])"
    using rep by (intro foldl_float_add_ge) (auto simp add: eq int_truediv_rate_nonneg)
  ultimately show ?thesis by simp
qed

lemma float_add_mono: "a \<le> a' \<Longrightarrow> b \<le> b' \<Longrightarrow> float_add a b \<le> float_add a' b'"
  unfolding float_add_def by (intro double_round_mono) simp

lemma squad_part_mono:
  assumes "m1 \<le> m2"
  shows "float_mul (int_truediv 100 60) (float_of_int m1)
       \<le> float_mul (int_truediv 100 60) (float_of_int m2)"
proof -
  have c: "0 \<le> int_truediv 100 60"
    unfolding int_truediv_def by (intro less_imp_le double_round_pos) simp
  have "float_of_int m1 \<le> float_of_int m2"
    unfolding float_of_int_def using assms by (intro double_round_mono) simp
  then show ?thesis
    unfolding float_mul_def using c by (intro double_round_mono mult_left_mono)
qed

lemma price_for_interval_mono_end:
  assumes "e1 \<le> e2"
  shows "price_for_interval s e1 g h \<le> price_for_interval s e2 g h"
proof -
  have base: "price_loop s e1 0 \<le> price_loop s e2 0" using assms by (rule price_loop_mono_end)
  have mins: "(e1 - s) div 60 \<le> (e2 - s) div 60" using assms by (intro zdiv_mono1) simp_all
  show ?thesis
    unfolding price_for_interval_def Let_def py_round0_def
    by (intro rhe_mono) (auto intro!: float_add_mono squad_part_mono base mins)
qed

text \<open>
  Claim C8. For every start, every choice of gamepads mode and headsets, every duration
  \<open>d > 0\<close> and step \<open>s > 0\<close> (both in minutes), the price of \<open>[start, start + d + s)\<close> is at
  least the price of \<open>[start, start + d)\<close>. This holds for the float arithmetic of the code,
  without a bound on the length: each float addition of a non-negative amount is monotone.
\<close>

theorem price_monotone_in_duration:
  "0 < d \<Longrightarrow> 0 < s \<Longrightarrow>
     price_for_interval start (start + timedelta_minutes d) g h
       \<le> price_for_interval start (start + timedelta_minutes (d + s)) g h"
  by (intro price_for_interval_mono_end) (simp add: timedelta_minutes_def)

theorem price_monotone_in_duration_witness:
  "(0::int) < 60 \<and> (0::int) < 30
   \<and> price_for_interval (local_dt 0 17 0) (local_dt 0 17 0 + timedelta_minutes 60) ''squad'' True
     \<le> price_for_interval (local_dt 0 17 0) (local_dt 0 17 0 + timedelta_minutes (60 + 30))
         ''squad'' True"
  using price_monotone_in_duration [of 60 30 "local_dt 0 17 0" "''squad''" True]
  by simp


section \<open>The float total against the exact total\<close>

text \<open>
  Every rate is 400 or 500, so the exact total is a whole number of thirds and is never
  within \<open>1/6\<close> of a tie of the final rounding. For an interval of at most a million
  minutes the rounding errors of the float additions stay far below \<open>1/6\<close>, so the price
  returned is the exact total, rounded.
\<close>

lemma rate_bounds: "r \<in> set (minute_rates s e) \<Longrightarrow> 0 < r \<and> r \<le> 500"
  by (auto simp add: minute_rates_def rate_at_def DAY_RATE_def EVE_RATE_def)

lemma int_truediv_error:
  assumes "0 < r" "r \<le> 500"
  shows "\<bar>int_truediv r 60 - of_int r / 60\<bar> \<le> 9 / 2 ^ 53"
proof -
  have "\<bar>int_truediv r 60 - of_int r / 60\<bar> \<le> \<bar>of_int r / 60\<bar> / 2 ^ 53"
    unfolding int_truediv_def using double_round_error [of "of_int r / of_int 60"] by simp
  also have "\<bar>(of_int r :: rat) / 60\<bar> \<le> 9"
  proof -
    have "(of_int r :: rat) \<le> of_int 500" using assms(2) by (simp only: of_int_le_iff)
    moreover have "(0 :: rat) < of_int r" using assms(1) by simp
    ultimately show ?thesis by simp
  qed
  finally show ?thesis by (simp add: divide_right_mono)
qed

lemma loop_error:
  assumes "\<forall>r \<in> set rs. 0 < r \<and> r \<le> 500"
    and "\<bar>t - of_int T / 60\<bar> \<le> 24 * (of_nat k)\<^sup>2 / 2 ^ 53"
    and "0 \<le> T" "T \<le> 500 * int k"
    and "k + length rs \<le> 2 ^ 24"
  shows "\<bar>foldl float_add t (map (\<lambda>r. int_truediv r 60) rs) - of_int (T + sum_list rs) / 60\<bar>
           \<le> 24 * (of_nat (k + length rs))\<^sup>2 / 2 ^ 53"
  using assms
proof (induction rs arbitrary: t T k)
  case Nil
  then show ?case by simp
next
  case (Cons r rs)
  let ?c = "int_truediv r 60"
  let ?u = "(1::rat) / 2 ^ 53"
  have r: "0 < r" "r \<le> 500" using Cons.prems(1) by simp_all
  have kb: "k < 2 ^ 24" using Cons.prems(5) by simp
  have kr: "(of_nat k :: rat) \<le> 2 ^ 24" using kb
    by (metis less_imp_le of_nat_le_iff of_nat_numeral of_nat_power)
  have E: "24 * (of_nat k :: rat)\<^sup>2 / 2 ^ 53 \<le> 1"
  proof -
    have "(of_nat k :: rat)\<^sup>2 \<le> (2 ^ 24)\<^sup>2" using kr by (intro power_mono) simp_all
    then show ?thesis by simp
  qed
  have cerr: "\<bar>?c - of_int r / 60\<bar> \<le> 9 * ?u" using int_truediv_error [OF r] by simp
  have Tb: "(of_int T :: rat) / 60 \<le> 9 * of_nat k"
  proof -
    have "(of_int T :: rat) \<le> of_int (500 * int k)" using Cons.prems(4) by (simp only: of_int_le_iff)
    then show ?thesis by simp
  qed
  have T0: "(0::rat) \<le> of_int T / 60" using Cons.prems(3) by simp
  have rb: "(of_int r :: rat) / 60 \<le> 9" "(0::rat) \<le> of_int r / 60"
  proof -
    have "(of_int r :: rat) \<le> of_int 500" using r(2) by (simp only: of_int_le_iff)
    then show "(of_int r :: rat) / 60 \<le> 9" by simp
    show "(0::rat) \<le> of_int r / 60" using r(1) by simp
  qed
  have tb: "\<bar>t\<bar> \<le> 9 * of_nat k + 1"
    using Cons.prems(2) E Tb T0 by linarith
  have small: "9 * ?u \<le> 1" by simp
  have cb: "\<bar>?c\<bar> \<le> 10" using cerr rb small by linarith
  have sum_b: "\<bar>t + ?c\<bar> \<le> 9 * of_nat k + 11" using tb cb by linarith
  have rnd: "\<bar>float_add t ?c - (t + ?c)\<bar> \<le> (9 * of_nat k + 11) * ?u"
  proof -
    have "\<bar>float_add t ?c - (t + ?c)\<bar> \<le> \<bar>t + ?c\<bar> / 2 ^ 53"
      unfolding float_add_def by (rule double_round_error)
    also have "\<dots> \<le> (9 * of_nat k + 11) / 2 ^ 53"
      using sum_b by (simp add: divide_right_mono)
    finally show ?thesis by simp
  qed
  have step: "\<bar>float_add t ?c - of_int (T + r) / 60\<bar> \<le> 24 * (of_nat (Suc k))\<^sup>2 / 2 ^ 53"
  proof -
    have "float_add t ?c - of_int (T + r) / 60
        = (float_add t ?c - (t + ?c)) + (t - of_int T / 60) + (?c - of_int r / 60)"
      by (simp add: add_divide_distrib)
    then have "\<bar>float_add t ?c - of_int (T + r) / 60\<bar>
        \<le> (9 * of_nat k + 11) * ?u + 24 * (of_nat k)\<^sup>2 / 2 ^ 53 + 9 * ?u"
      using rnd Cons.prems(2) cerr by linarith
    also have "\<dots> = (24 * (of_nat k)\<^sup>2 + 9 * of_nat k + 20) / 2 ^ 53"
      by (simp add: algebra_simps add_divide_distrib)
    also have "\<dots> \<le> 24 * (of_nat (Suc k))\<^sup>2 / 2 ^ 53"
    proof -
      have "(24 * (of_nat k)\<^sup>2 + 9 * of_nat k + 20 :: rat) \<le> 24 * (of_nat (Suc k))\<^sup>2"
        by (simp add: power2_eq_square algebra_simps)
      then show ?thesis by (simp add: divide_right_mono)
    qed
    finally show ?thesis .
  qed
  have "\<bar>foldl float_add (float_add t ?c) (map (\<lambda>r. int_truediv r 60) rs)
          - of_int ((T + r) + sum_list rs) / 60\<bar>
        \<le> 24 * (of_nat (Suc k + length rs))\<^sup>2 / 2 ^ 53"
  proof (rule Cons.IH)
    show "\<forall>r\<in>set rs. 0 < r \<and> r \<le> 500" using Cons.prems(1) by simp
    show "\<bar>float_add t ?c - of_int (T + r) / 60\<bar> \<le> 24 * (of_nat (Suc k))\<^sup>2 / 2 ^ 53" by (rule step)
    show "0 \<le> T + r" using Cons.prems(3) r by simp
    show "T + r \<le> 500 * int (Suc k)" using Cons.prems(4) r by simp
    show "Suc k + length rs \<le> 2 ^ 24" using Cons.prems(5) by simp
  qed
  then show ?case by (simp add: add.assoc)
qed

lemma float_add_error:
  assumes "\<bar>a - A\<bar> \<le> ea" "\<bar>b - B\<bar> \<le> eb" "\<bar>A\<bar> + \<bar>B\<bar> + ea + eb \<le> M"
  shows "\<bar>float_add a b - (A + B)\<bar> \<le> ea + eb + M / 2 ^ 53"
proof -
  have "\<bar>a + b\<bar> \<le> M" using assms by linarith
  then have "\<bar>a + b\<bar> / 2 ^ 53 \<le> M / 2 ^ 53" by (simp add: divide_right_mono)
  moreover have "\<bar>float_add a b - (a + b)\<bar> \<le> \<bar>a + b\<bar> / 2 ^ 53"
    unfolding float_add_def by (rule double_round_error)
  ultimately show ?thesis using assms(1,2) by linarith
qed

lemma rhe_eqI:
  assumes "of_int k - 1 / 2 < t" "t < of_int k + 1 / 2"
  shows "round_half_even t = k"
proof (cases "of_int k \<le> t")
  case True
  then have "\<lfloor>t\<rfloor> = k" using assms(2) by (intro floor_unique) simp_all
  then show ?thesis using assms(2) by (simp add: round_half_even_def Let_def)
next
  case False
  then have "\<lfloor>t\<rfloor> = k - 1" using assms(1) by (intro floor_unique) simp_all
  then show ?thesis using assms(1) by (auto simp add: round_half_even_def Let_def)
qed

lemma rhe_near_third:
  assumes "\<bar>t - of_int z / 3\<bar> < 1 / 6"
  shows "round_half_even t = round_half_even (of_int z / 3)"
proof -
  define k where "k = z div 3"
  define r where "r = z mod 3"
  have z: "z = 3 * k + r" and r: "r = 0 \<or> r = 1 \<or> r = 2"
    unfolding k_def r_def by presburger+
  have X: "(of_int z :: rat) / 3 = of_int k + of_int r / 3"
    by (simp add: z)
  from r show ?thesis
  proof (elim disjE)
    assume "r = 0"
    with X assms have "round_half_even t = k" "round_half_even (of_int z / 3) = k"
      by (intro rhe_eqI; simp; linarith)+
    then show ?thesis by simp
  next
    assume "r = 1"
    with X assms have "round_half_even t = k" "round_half_even (of_int z / 3) = k"
      by (intro rhe_eqI; simp; linarith)+
    then show ?thesis by simp
  next
    assume "r = 2"
    with X assms have "round_half_even t = k + 1" "round_half_even (of_int z / 3) = k + 1"
      by (intro rhe_eqI; simp; linarith)+
    then show ?thesis by simp
  qed
qed

lemma dvd_sum_list_int: "(\<And>x. x \<in> set xs \<Longrightarrow> d dvd x) \<Longrightarrow> (d::int) dvd sum_list xs"
  by (induction xs) auto

lemma sum_list_bounds:
  "\<forall>r \<in> set rs. 0 < r \<and> r \<le> (500::int) \<Longrightarrow> 0 \<le> sum_list rs \<and> sum_list rs \<le> 500 * int (length rs)"
  by (induction rs) auto

lemma minute_rates_dvd: "100 dvd sum_list (minute_rates s e)"
  by (rule dvd_sum_list_int) (auto simp add: minute_rates_def rate_at_def DAY_RATE_def EVE_RATE_def)

lemma length_minute_rates [simp]: "length (minute_rates s e) = minutes_charged s e"
  by (simp add: minute_rates_def)

lemma base_error:
  assumes "\<bar>e - s\<bar> \<le> 60000000"
  shows "\<bar>price_loop s e 0 - of_int (sum_list (minute_rates s e)) / 60\<bar> \<le> 1 / 300"
    and "\<bar>(of_int (sum_list (minute_rates s e)) :: rat) / 60\<bar> \<le> 9000000"
proof -
  let ?rs = "minute_rates s e"
  let ?n = "minutes_charged s e"
  have "(e - s + 59) div 60 \<le> 1000000" using assms by linarith
  then have n: "?n \<le> 1000000" unfolding minutes_charged_def by linarith
  have rb: "\<forall>r \<in> set ?rs. 0 < r \<and> r \<le> 500" using rate_bounds by blast
  have "\<bar>foldl float_add 0 (map (\<lambda>r. int_truediv r 60) ?rs) - of_int (0 + sum_list ?rs) / 60\<bar>
      \<le> 24 * (of_nat (0 + length ?rs))\<^sup>2 / 2 ^ 53"
    using rb n by (intro loop_error) simp_all
  then have 1: "\<bar>price_loop s e 0 - of_int (sum_list ?rs) / 60\<bar> \<le> 24 * (of_nat ?n)\<^sup>2 / 2 ^ 53"
    by (simp add: price_loop_closed)
  have nr: "(of_nat ?n :: rat) \<le> 1000000" using n
    by (metis of_nat_le_iff of_nat_numeral)
  then have "(of_nat ?n :: rat)\<^sup>2 \<le> 1000000\<^sup>2" by (intro power_mono) simp_all
  then have "24 * (of_nat ?n :: rat)\<^sup>2 / 2 ^ 53 \<le> 1 / 300" by simp
  with 1 show "\<bar>price_loop s e 0 - of_int (sum_list ?rs) / 60\<bar> \<le> 1 / 300" by linarith
  from sum_list_bounds [OF rb] have "0 \<le> sum_list ?rs" "sum_list ?rs \<le> 500 * int ?n" by simp_all
  then have "(0::rat) \<le> of_int (sum_list ?rs)" "(of_int (sum_list ?rs) :: rat) \<le> 500 * of_nat ?n"
    by (simp, metis (no_types) of_int_le_iff of_int_mult of_int_numeral of_int_of_nat_eq)
  with nr show "\<bar>(of_int (sum_list ?rs) :: rat) / 60\<bar> \<le> 9000000" by simp
qed

lemma squad_error:
  assumes "\<bar>m\<bar> \<le> 1000000"
  shows "\<bar>float_mul (int_truediv 100 60) (float_of_int m) - 100 / 60 * of_int m\<bar> \<le> 1 / 1000"
proof -
  let ?u = "(1::rat) / 2 ^ 53"
  let ?c = "int_truediv 100 60"
  let ?fm = "float_of_int m"
  have mr: "\<bar>of_int m :: rat\<bar> \<le> 1000000"
    using assms by (metis of_int_abs of_int_le_iff of_int_numeral)
  have c1: "\<bar>?c - 100 / 60\<bar> \<le> 2 * ?u"
  proof -
    have "\<bar>?c - 100 / 60\<bar> \<le> \<bar>100 / 60 :: rat\<bar> / 2 ^ 53"
      unfolding int_truediv_def using double_round_error [of "100 / 60"] by simp
    then show ?thesis by simp
  qed
  have u1: "2 * ?u \<le> 1 / 3" "1000000 * ?u \<le> 1" by simp_all
  have c2: "\<bar>?c\<bar> \<le> 2" using c1 u1(1) by linarith
  have f1: "\<bar>?fm - of_int m\<bar> \<le> 1000000 * ?u"
  proof -
    have "\<bar>?fm - of_int m\<bar> \<le> \<bar>of_int m :: rat\<bar> / 2 ^ 53"
      unfolding float_of_int_def by (rule double_round_error)
    also have "\<dots> \<le> 1000000 / 2 ^ 53" using mr by (intro divide_right_mono) simp_all
    finally show ?thesis by simp
  qed
  have f2: "\<bar>?fm\<bar> \<le> 1000001" using f1 mr u1(2) by linarith
  have split: "?c * ?fm - 100 / 60 * of_int m = ?c * (?fm - of_int m) + of_int m * (?c - 100 / 60)"
    by (simp add: algebra_simps)
  have p1: "\<bar>?c * (?fm - of_int m)\<bar> \<le> 2 * (1000000 * ?u)"
    unfolding abs_mult using c2 f1 by (intro mult_mono) simp_all
  have p2: "\<bar>of_int m * (?c - 100 / 60)\<bar> \<le> 1000000 * (2 * ?u)"
    unfolding abs_mult using mr c1 by (intro mult_mono) simp_all
  have p3: "\<bar>?c * ?fm\<bar> \<le> 2 * 1000001"
    unfolding abs_mult using c2 f2 by (intro mult_mono) simp_all
  have "\<bar>float_mul ?c ?fm - ?c * ?fm\<bar> \<le> \<bar>?c * ?fm\<bar> / 2 ^ 53"
    unfolding float_mul_def by (rule double_round_error)
  also have "\<dots> \<le> 2 * 1000001 / 2 ^ 53" using p3 by (intro divide_right_mono) simp_all
  finally have p4: "\<bar>float_mul ?c ?fm - ?c * ?fm\<bar> \<le> 2 * 1000001 * ?u" by simp
  have "\<bar>float_mul ?c ?fm - 100 / 60 * of_int m\<bar>
      \<le> 2 * 1000001 * ?u + 2 * (1000000 * ?u) + 1000000 * (2 * ?u)"
    using p1 p2 p4 split by linarith
  also have "\<dots> \<le> 1 / 1000" by simp
  finally show ?thesis .
qed

lemma headsets_error: "\<bar>float_of_int 150 - 150\<bar> \<le> 1 / 1000"
proof -
  have "\<bar>float_of_int 150 - 150\<bar> \<le> \<bar>150 :: rat\<bar> / 2 ^ 53"
    unfolding float_of_int_def using double_round_error [of 150] by simp
  then show ?thesis by simp
qed

lemma exact_total_thirds: "\<exists>z. exact_total s e g h = of_int z / 3"
proof -
  obtain w where w: "sum_list (minute_rates s e) = 100 * w"
    using minute_rates_dvd [of s e] by (auto elim: dvdE)
  let ?m = "(e - s) div 60"
  have "exact_total s e g h
      = of_int (5 * w + (if g = ''squad'' then 5 * ?m else 0) + (if h then 450 else 0)) / 3"
    by (simp add: exact_total_def w)
  then show ?thesis ..
qed

lemma price_for_interval_exact:
  assumes "\<bar>e - s\<bar> \<le> 60000000"
  shows "price_for_interval s e g h = round_half_even (exact_total s e g h)"
proof -
  let ?S = "(of_int (sum_list (minute_rates s e)) :: rat) / 60"
  let ?m = "(e - s) div 60"
  let ?Q = "(if g = ''squad'' then 100 / 60 * of_int ?m else 0 :: rat)"
  let ?t = "price_loop s e 0"
  let ?sq = "float_mul (int_truediv 100 60) (float_of_int ?m)"
  let ?t1 = "if g = ''squad'' then float_add ?t ?sq else ?t"
  let ?t2 = "if h then float_add ?t1 (float_of_int 150) else ?t1"
  have m: "\<bar>?m\<bar> \<le> 1000000" using assms by linarith
  have mr: "\<bar>of_int ?m :: rat\<bar> \<le> 1000000"
    using m by (metis of_int_abs of_int_le_iff of_int_numeral)
  have Qb: "\<bar>?Q\<bar> \<le> 2000000" using mr by (simp add: abs_mult)
  note b = base_error [OF assms]
  have e1: "\<bar>?t1 - (?S + ?Q)\<bar> \<le> 1 / 100" and b1: "\<bar>?S + ?Q\<bar> \<le> 11000000"
  proof -
    show "\<bar>?S + ?Q\<bar> \<le> 11000000" using b(2) Qb by linarith
    show "\<bar>?t1 - (?S + ?Q)\<bar> \<le> 1 / 100"
    proof (cases "g = ''squad''")
      case True
      have "\<bar>float_add ?t ?sq - (?S + 100 / 60 * of_int ?m)\<bar>
          \<le> 1 / 300 + 1 / 1000 + 11000001 / 2 ^ 53"
        using b(1) squad_error [OF m] b(2) Qb True
        by (intro float_add_error) simp_all
      also have "\<dots> \<le> 1 / 100" by simp
      finally show ?thesis using True by simp
    next
      case False
      then show ?thesis using b(1) by simp
    qed
  qed
  have e2: "\<bar>?t2 - exact_total s e g h\<bar> \<le> 1 / 50"
  proof (cases h)
    case True
    have "\<bar>float_add ?t1 (float_of_int 150) - ((?S + ?Q) + 150)\<bar>
        \<le> 1 / 100 + 1 / 1000 + 11000151 / 2 ^ 53"
      using e1 headsets_error b1 by (intro float_add_error) simp_all
    also have "\<dots> \<le> 1 / 50" by simp
    finally show ?thesis using True by (simp add: exact_total_def)
  next
    case False
    then show ?thesis using e1 by (simp add: exact_total_def)
  qed
  obtain z where z: "exact_total s e g h = of_int z / 3"
    using exact_total_thirds by blast
  have "round_half_even ?t2 = round_half_even (of_int z / 3)"
    using e2 unfolding z by (intro rhe_near_third) simp
  moreover have "price_for_interval s e g h = round_half_even ?t2"
    by (simp add: price_for_interval_def py_round0_def Let_def)
  ultimately show ?thesis by (simp add: z)
qed

section \<open>Prices\<close>

lemma rhe_zero [simp]: "round_half_even 0 = 0"
  by (simp add: round_half_even_def)

lemma rhe_one [simp]: "round_half_even 1 = 1"
  by (simp add: round_half_even_def)

lemma rhe_neg_numeral [simp]: "round_half_even (- numeral n) = - numeral n"
  by (simp add: rhe_minus)

lemma price_loop_no_minutes: "e \<le> s \<Longrightarrow> price_loop s e tot = tot"
  by (subst price_loop.simps) simp

lemma price_nonpositive_eq:
  assumes "e \<le> s" "g \<noteq> ''squad''"
  shows "price_for_interval s e g h = price_for_interval 0 0 g h"
  using assms by (simp add: price_for_interval_def price_loop_no_minutes)

lemma exact_total_nonpositive:
  assumes "e \<le> s"
  shows "exact_total s e g h
     = (if g = ''squad'' then 100 / 60 * of_int ((e - s) div 60) else 0) + (if h then 150 else 0)"
  using assms by (simp add: exact_total_def minute_rates_empty)

lemma minute_rates_nth:
  "k < minutes_charged s e \<Longrightarrow> minute_rates s e ! k = rate_at (s + 60 * int k)"
  by (simp add: minute_rates_def)

lemma minutes_charged_pos: "s < e \<Longrightarrow> 0 < minutes_charged s e"
  unfolding minutes_charged_def by linarith

lemma price_no_addons_float:
  assumes "g \<noteq> ''squad''"
  shows "price_for_interval s e g False
     = py_round0 (foldl float_add 0 (map (\<lambda>r. int_truediv r 60) (minute_rates s e)))"
  using assms by (simp add: price_for_interval_def price_loop_closed)

lemma price_no_addons_exact:
  assumes "g \<noteq> ''squad''" "\<bar>e - s\<bar> \<le> 60000000"
  shows "price_for_interval s e g False
     = round_half_even (of_int (sum_list (minute_rates s e)) / 60)"
  using assms by (simp add: price_for_interval_exact exact_total_def)

lemma map_upt_const: "(\<And>k. k < n \<Longrightarrow> f k = c) \<Longrightarrow> map f [0..<n] = replicate n c"
  by (induction n) (simp_all add: replicate_append_same)

subsection \<open>The rates of the minutes of the example intervals\<close>

lemma rates_13_14: "sum_list (minute_rates (local_dt 0 13 0) (local_dt 0 14 0)) = 24000"
  by code_simp

lemma rates_17_19: "sum_list (minute_rates (local_dt 0 17 0) (local_dt 0 19 0)) = 54000"
  by code_simp

lemma rates_1730_1830:
  "minute_rates (local_dt 0 17 30) (local_dt 0 18 30) = replicate 30 400 @ replicate 30 500"
  by code_simp

lemma rates_2330_0030:
  "minute_rates (local_dt 0 23 30) (local_dt 1 0 30) = replicate 60 500"
  by code_simp

subsection \<open>The scenario of the spec\<close>

text \<open>
  Claim C3. With the rates 400 and 500 per hour, the buffer 10 and the step 60 of the code:
  the interval 13:00 to 14:00 with no addons costs 400; 17:00 to 19:00 with the squad
  tier costs 1100; 17:00 to 19:00 with the squad tier and headsets costs 1250. These are
  the values of the float computation of the code.
\<close>

theorem scenario_prices:
  "DAY_RATE = 400 \<and> EVE_RATE = 500 \<and> BUFFER_MIN = 10 \<and> SLOT_STEP_MIN = 60
   \<and> price_for_interval (local_dt 0 13 0) (local_dt 0 14 0) ''duo'' False = 400
   \<and> price_for_interval (local_dt 0 17 0) (local_dt 0 19 0) ''squad'' False = 1100
   \<and> price_for_interval (local_dt 0 17 0) (local_dt 0 19 0) ''squad'' True = 1250"
proof -
  have b1: "\<bar>local_dt 0 14 0 - local_dt 0 13 0\<bar> \<le> 60000000"
    and b2: "\<bar>local_dt 0 19 0 - local_dt 0 17 0\<bar> \<le> 60000000"
    by (simp_all add: time_defs)
  have "exact_total (local_dt 0 13 0) (local_dt 0 14 0) ''duo'' False = 400"
    unfolding exact_total_def rates_13_14 by simp
  then have p1: "price_for_interval (local_dt 0 13 0) (local_dt 0 14 0) ''duo'' False = 400"
    by (simp add: price_for_interval_exact [OF b1])
  have "exact_total (local_dt 0 17 0) (local_dt 0 19 0) ''squad'' False = 1100"
    unfolding exact_total_def rates_17_19 by (simp add: time_defs)
  then have p2: "price_for_interval (local_dt 0 17 0) (local_dt 0 19 0) ''squad'' False = 1100"
    by (simp add: price_for_interval_exact [OF b2])
  have "exact_total (local_dt 0 17 0) (local_dt 0 19 0) ''squad'' True = 1250"
    unfolding exact_total_def rates_17_19 by (simp add: time_defs)
  then have p3: "price_for_interval (local_dt 0 17 0) (local_dt 0 19 0) ''squad'' True = 1250"
    by (simp add: price_for_interval_exact [OF b2])
  from p1 p2 p3 show ?thesis by (simp add: const_defs)
qed

subsection \<open>The base price\<close>

text \<open>
  Claim C4. For an interval of positive length and no addons, the loop is passed once for
  every minute begun; the rate of the minute of index \<open>k\<close> is the day rate when the time of
  day of its first instant, taken modulo 24 hours, lies in \<open>[13:00, 18:00)\<close>, and the evening
  rate otherwise; the price is the float sum, from left to right, of the floats
  \<open>rate / 60\<close>, rounded once at the end. For an interval of at most a million minutes that
  is the exact sum of the \<open>rate / 60\<close>, rounded once to the nearest integer. An
  example is the interval 17:30 to 18:30: thirty minutes at the day rate, thirty at the
  evening rate, \<open>(30 * 400 + 30 * 500) / 60 = 450\<close>; another is 23:30 to 00:30 of the next
  day, all of it at the evening rate.
\<close>

theorem base_price_sums_minutes_rounds_once:
  "start_local < end_local \<longrightarrow> gamepads_mode \<noteq> ''squad'' \<longrightarrow>
     0 < minutes_charged start_local end_local
     \<and> length (minute_rates start_local end_local) = minutes_charged start_local end_local
     \<and> (\<forall>k < minutes_charged start_local end_local.
           minute_rates start_local end_local ! k
             = (if time_hm 13 0 \<le> (start_local + 60 * int k) mod 86400
                   \<and> (start_local + 60 * int k) mod 86400 < time_hm 18 0
                then DAY_RATE else EVE_RATE))
     \<and> price_for_interval start_local end_local gamepads_mode False
         = py_round0 (foldl float_add 0
             (map (\<lambda>r. int_truediv r 60) (minute_rates start_local end_local)))
     \<and> (end_local - start_local \<le> timedelta_minutes 1000000 \<longrightarrow>
           price_for_interval start_local end_local gamepads_mode False
             = round_half_even (of_int (sum_list (minute_rates start_local end_local)) / 60))"
proof (intro impI conjI allI)
  assume lt: "start_local < end_local" and g: "gamepads_mode \<noteq> ''squad''"
  show "0 < minutes_charged start_local end_local" using lt by (rule minutes_charged_pos)
  show "length (minute_rates start_local end_local) = minutes_charged start_local end_local"
    by simp
  show "price_for_interval start_local end_local gamepads_mode False
         = py_round0 (foldl float_add 0
             (map (\<lambda>r. int_truediv r 60) (minute_rates start_local end_local)))"
    using g by (rule price_no_addons_float)
  show "minute_rates start_local end_local ! k
             = (if time_hm 13 0 \<le> (start_local + 60 * int k) mod 86400
                   \<and> (start_local + 60 * int k) mod 86400 < time_hm 18 0
                then DAY_RATE else EVE_RATE)"
    if "k < minutes_charged start_local end_local" for k
    using that by (simp add: minute_rates_nth rate_at_def time_of_def)
  show "price_for_interval start_local end_local gamepads_mode False
             = round_half_even (of_int (sum_list (minute_rates start_local end_local)) / 60)"
    if "end_local - start_local \<le> timedelta_minutes 1000000"
    using that lt g by (intro price_no_addons_exact) (simp_all add: timedelta_minutes_def)
qed

theorem base_price_sums_minutes_rounds_once_witness:
  "local_dt 0 17 30 < local_dt 0 18 30
   \<and> minute_rates (local_dt 0 17 30) (local_dt 0 18 30)
       = replicate 30 DAY_RATE @ replicate 30 EVE_RATE
   \<and> price_for_interval (local_dt 0 17 30) (local_dt 0 18 30) ''duo'' False
       = round_half_even ((30 * 400 + 30 * 500) / 60)
   \<and> price_for_interval (local_dt 0 17 30) (local_dt 0 18 30) ''duo'' False = 450
   \<and> price_for_interval (local_dt 0 23 30) (local_dt 1 0 30) ''duo'' False = 500"
proof -
  have lt: "local_dt 0 17 30 < local_dt 0 18 30" "local_dt 0 23 30 < local_dt 1 0 30"
    and len: "local_dt 0 18 30 - local_dt 0 17 30 \<le> timedelta_minutes 1000000"
      "local_dt 1 0 30 - local_dt 0 23 30 \<le> timedelta_minutes 1000000"
    by (simp_all add: time_defs)
  have g: "''duo'' \<noteq> ''squad''" by simp
  note day_eve = base_price_sums_minutes_rounds_once
    [of "local_dt 0 17 30" "local_dt 0 18 30" "''duo''", rule_format, OF lt(1) g]
  note night = base_price_sums_minutes_rounds_once
    [of "local_dt 0 23 30" "local_dt 1 0 30" "''duo''", rule_format, OF lt(2) g]
  have p1: "price_for_interval (local_dt 0 17 30) (local_dt 0 18 30) ''duo'' False
      = round_half_even (of_int (sum_list (replicate 30 400 @ replicate 30 500)) / 60)"
    using day_eve len(1) unfolding rates_1730_1830 by blast
  have p2: "price_for_interval (local_dt 0 23 30) (local_dt 1 0 30) ''duo'' False
      = round_half_even (of_int (sum_list (replicate 60 500)) / 60)"
    using night len(2) unfolding rates_2330_0030 by blast
  show ?thesis
    using lt(1) by (simp add: p1 p2 rates_1730_1830 sum_list_replicate const_defs)
qed

subsection \<open>Outside the day band\<close>

text \<open>
  Claim C10. \<open>price_for_interval\<close> is a total function: its loop ends for every interval and
  nothing in it fails. A minute whose time of day is outside \<open>[13:00, 18:00)\<close> has the
  evening rate 500, whether or not the room is open then. So when every minute of an
  interval begins outside the day band, the price with no addons is the rounded float sum
  of as many \<open>500 / 60\<close> as minutes, which for at most a million minutes is \<open>500 * n / 60\<close>
  rounded. An example is 10:00 to 11:00, which costs 500, while the first slot of a day
  starts at 13:00.
\<close>

theorem evening_rate_outside_day_band:
  "(\<not> (time_hm 13 0 \<le> time_of cur \<and> time_of cur < time_hm 18 0)
      \<longrightarrow> rate_at cur = EVE_RATE \<and> EVE_RATE = 500)
   \<and> ((\<forall>k < minutes_charged start_local end_local.
          \<not> (time_hm 13 0 \<le> time_of (start_local + 60 * int k)
              \<and> time_of (start_local + 60 * int k) < time_hm 18 0))
       \<longrightarrow> gamepads_mode \<noteq> ''squad'' \<longrightarrow>
         price_for_interval start_local end_local gamepads_mode False
           = py_round0 (foldl float_add 0
               (replicate (minutes_charged start_local end_local) (int_truediv EVE_RATE 60)))
         \<and> (\<bar>end_local - start_local\<bar> \<le> timedelta_minutes 1000000 \<longrightarrow>
              price_for_interval start_local end_local gamepads_mode False
                = round_half_even
                    (of_int (EVE_RATE * int (minutes_charged start_local end_local)) / 60)))"
proof (intro conjI impI)
  assume "\<not> (time_hm 13 0 \<le> time_of cur \<and> time_of cur < time_hm 18 0)"
  then show "rate_at cur = EVE_RATE" by (auto simp add: rate_at_def)
  show "EVE_RATE = 500" by (simp add: EVE_RATE_def)
next
  assume out: "\<forall>k < minutes_charged start_local end_local.
          \<not> (time_hm 13 0 \<le> time_of (start_local + 60 * int k)
              \<and> time_of (start_local + 60 * int k) < time_hm 18 0)"
    and g: "gamepads_mode \<noteq> ''squad''"
  have rs: "minute_rates start_local end_local
      = replicate (minutes_charged start_local end_local) EVE_RATE"
    unfolding minute_rates_def using out by (intro map_upt_const) (auto simp add: rate_at_def)
  show "price_for_interval start_local end_local gamepads_mode False
           = py_round0 (foldl float_add 0
               (replicate (minutes_charged start_local end_local) (int_truediv EVE_RATE 60)))"
    using g by (simp add: price_no_addons_float rs)
  show "price_for_interval start_local end_local gamepads_mode False
                = round_half_even
                    (of_int (EVE_RATE * int (minutes_charged start_local end_local)) / 60)"
    if "\<bar>end_local - start_local\<bar> \<le> timedelta_minutes 1000000"
  proof -
    have "\<bar>end_local - start_local\<bar> \<le> 60000000"
      using that by (simp add: timedelta_minutes_def)
    with g show ?thesis
      by (simp add: price_no_addons_exact rs sum_list_replicate mult.commute)
  qed
qed

theorem evening_rate_outside_day_band_witness:
  "\<not> (time_hm 13 0 \<le> time_of (local_dt 0 10 0) \<and> time_of (local_dt 0 10 0) < time_hm 18 0)
   \<and> rate_at (local_dt 0 10 0) = 500
   \<and> price_for_interval (local_dt 0 10 0) (local_dt 0 11 0) ''duo'' False = 500
   \<and> iter_open_slots (local_dt 0 0 0) 60 ! 0 = (local_dt 0 13 0, local_dt 0 14 0)"
proof -
  have n: "minutes_charged (local_dt 0 10 0) (local_dt 0 11 0) = 60"
    by (simp add: minutes_charged_def time_defs)
  have out: "\<forall>k < minutes_charged (local_dt 0 10 0) (local_dt 0 11 0).
          \<not> (time_hm 13 0 \<le> time_of (local_dt 0 10 0 + 60 * int k)
              \<and> time_of (local_dt 0 10 0 + 60 * int k) < time_hm 18 0)"
    unfolding n by (auto simp add: time_defs)
  show ?thesis
    using evening_rate_outside_day_band [of "local_dt 0 10 0" "local_dt 0 10 0" "local_dt 0 11 0" "''duo''"]
      out n
    by (simp add: time_defs const_defs iter_open_slots_closed)
qed

subsection \<open>Intervals of no or negative length\<close>

text \<open>
  Claim C6. The claim asks that an interval with \<open>end \<le> start\<close> be rejected with an error
  before any pricing runs. The code has no check of the interval: for \<open>end \<le> start\<close> the
  loop is not entered and the function returns a price made of the surcharges alone. With
  a gamepads mode other than squad that is 0, or 150 with headsets. With the squad tier
  (and a length of at most a million minutes) it is the rounded \<open>100 / 60\<close> per minute of
  the length, which is not positive, plus 150 with headsets.
\<close>

theorem price_of_nonpositive_interval:
  "(end_local \<le> start_local \<longrightarrow> gamepads_mode \<noteq> ''squad'' \<longrightarrow>
      price_for_interval start_local end_local gamepads_mode headsets
        = (if headsets then 150 else 0))
   \<and> (end_local \<le> start_local \<longrightarrow> start_local - end_local \<le> timedelta_minutes 1000000 \<longrightarrow>
      price_for_interval start_local end_local ''squad'' headsets
        = round_half_even (100 / 60 * of_int ((end_local - start_local) div 60)
            + (if headsets then 150 else 0)))"
proof (intro conjI impI)
  assume le: "end_local \<le> start_local" and g: "gamepads_mode \<noteq> ''squad''"
  have "price_for_interval start_local end_local gamepads_mode headsets
      = price_for_interval 0 0 gamepads_mode headsets"
    using le g by (rule price_nonpositive_eq)
  also have "\<dots> = round_half_even (exact_total 0 0 gamepads_mode headsets)"
    by (rule price_for_interval_exact) simp
  also have "\<dots> = (if headsets then 150 else 0)"
    using g by (simp add: exact_total_nonpositive)
  finally show "price_for_interval start_local end_local gamepads_mode headsets
      = (if headsets then 150 else 0)" .
next
  assume le: "end_local \<le> start_local"
    and b: "start_local - end_local \<le> timedelta_minutes 1000000"
  have "\<bar>end_local - start_local\<bar> \<le> 60000000"
    using le b by (simp add: timedelta_minutes_def)
  then have "price_for_interval start_local end_local ''squad'' headsets
      = round_half_even (exact_total start_local end_local ''squad'' headsets)"
    by (rule price_for_interval_exact)
  then show "price_for_interval start_local end_local ''squad'' headsets
        = round_half_even (100 / 60 * of_int ((end_local - start_local) div 60)
            + (if headsets then 150 else 0))"
    using le by (simp add: exact_total_nonpositive)
qed

theorem price_of_nonpositive_interval_witness:
  "local_dt 0 13 0 \<le> local_dt 0 14 0
   \<and> price_for_interval (local_dt 0 14 0) (local_dt 0 13 0) ''duo'' True = 150
   \<and> price_for_interval (local_dt 0 14 0) (local_dt 0 13 0) ''squad'' False = - 100"
  using price_of_nonpositive_interval [of "local_dt 0 13 0" "local_dt 0 14 0" "''duo''" True]
    price_of_nonpositive_interval [of "local_dt 0 13 0" "local_dt 0 14 0" "''duo''" False]
  by (simp add: time_defs)

text \<open>
  Against a rejection: at 14:00 to 13:00, and at the empty interval 14:00 to 14:00, with
  no addons, the function returns the price 0.
\<close>

theorem price_of_reversed_interval_counterexample:
  "price_for_interval (local_dt 0 14 0) (local_dt 0 13 0) ''duo'' False = 0
   \<and> price_for_interval (local_dt 0 14 0) (local_dt 0 14 0) ''duo'' False = 0"
proof -
  have "price_for_interval s e ''duo'' False = 0" if "e \<le> s" for s e
  proof -
    have "price_for_interval s e ''duo'' False = price_for_interval 0 0 ''duo'' False"
      using that by (intro price_nonpositive_eq) simp_all
    also have "\<dots> = round_half_even (exact_total 0 0 ''duo'' False)"
      by (rule price_for_interval_exact) simp
    also have "\<dots> = 0" by (simp add: exact_total_nonpositive)
    finally show ?thesis .
  qed
  then show ?thesis by (simp add: time_defs)
qed


end
